theory Spec2Isabelle
  imports Main "HOL-Library.Word"
begin

section \<open>Strings and values of the host language\<close>

text \<open>
  The unit under verification is \<^verbatim>\<open>frontend/src/lib/sanitize.ts\<close>. A string of the
  program is a sequence of 16-bit code units; \<open>str\<close> writes a literal of the source.
\<close>

type_synonym cu = "16 word"
type_synonym jsstring = "cu list"

definition str :: "string \<Rightarrow> jsstring" where
  "str cs = map of_char cs"

text \<open>
  The functions are declared on \<^verbatim>\<open>string\<close> but test their argument at run time
  (\<^verbatim>\<open>!input || typeof input !== "string"\<close>), so the argument is any value. A value
  that is neither a string, a boolean, null nor undefined carries its truthiness.
\<close>

datatype jsvalue = JUndefined | JNull | JBoolean bool | JString jsstring | JOther bool

fun to_boolean :: "jsvalue \<Rightarrow> bool" where
  "to_boolean JUndefined = False"
| "to_boolean JNull = False"
| "to_boolean (JBoolean b) = b"
| "to_boolean (JString s) = (s \<noteq> [])"
| "to_boolean (JOther b) = b"

fun is_string :: "jsvalue \<Rightarrow> bool" where
  "is_string (JString s) = True"
| "is_string v = False"

text \<open>White space and line terminators: what \<^verbatim>\<open>\s\<close> matches and \<^verbatim>\<open>trim\<close> removes.\<close>

definition white_space :: "cu list" where
  "white_space = [0x09, 0x0A, 0x0B, 0x0C, 0x0D, 0x20, 0xA0, 0x1680,
     0x2000, 0x2001, 0x2002, 0x2003, 0x2004, 0x2005, 0x2006, 0x2007, 0x2008, 0x2009, 0x200A,
     0x2028, 0x2029, 0x202F, 0x205F, 0x3000, 0xFEFF]"

definition is_white_space :: "cu \<Rightarrow> bool" where
  "is_white_space c = (c \<in> set white_space)"

definition trim :: "jsstring \<Rightarrow> jsstring" where
  "trim s = rev (dropWhile is_white_space (rev (dropWhile is_white_space s)))"

text \<open>The characters of \<^verbatim>\<open>\w\<close>, which also decide \<^verbatim>\<open>\b\<close>.\<close>

definition word_chars :: "cu list" where
  "word_chars = str ''abcdefghijklmnopqrstuvwxyzABCDEFGHIJKLMNOPQRSTUVWXYZ0123456789_''"

definition is_word_char :: "cu \<Rightarrow> bool" where
  "is_word_char c = (c \<in> set word_chars)"


section \<open>Regular expressions\<close>

text \<open>
  The constructs the regular expressions of the source use. A character set carries its
  negation flag and its members.
\<close>

datatype regex =
    REmpty
  | RChar cu
  | RSet bool "cu list"
  | RWordB
  | RNegLook regex
  | RSeq regex regex
  | RAlt regex regex
  | RStar regex

definition RPlus :: "regex \<Rightarrow> regex" where
  "RPlus r = RSeq r (RStar r)"

definition seqs :: "regex list \<Rightarrow> regex" where
  "seqs rs = foldr RSeq rs REmpty"

definition lit :: "string \<Rightarrow> regex list" where
  "lit cs = map RChar (str cs)"

text \<open>
  Case folding of the \<^verbatim>\<open>i\<close> flag (without the \<^verbatim>\<open>u\<close> flag). A code unit is
  compared after upper-casing, and a code unit from 128 on is never folded to one below
  128. Every character of every pattern of the source is below 128, or is a white space
  character (which has no case), so folding the letters a to z decides every comparison the
  patterns make.
\<close>

definition canonicalize :: "bool \<Rightarrow> cu \<Rightarrow> cu" where
  "canonicalize ignoreCase c =
     (if ignoreCase \<and> 0x61 \<le> c \<and> c \<le> 0x7A then c - 0x20 else c)"

text \<open>
  The backtracking matcher, as the list of the end positions it can reach from position
  \<open>i\<close> of \<open>s\<close>, in the order in which backtracking tries them: the head is the match the
  matcher returns. A greedy star first tries one more iteration, and gives up an iteration
  that consumed nothing (the bounds \<open>i < e\<close> and \<open>e \<le> length s\<close> say so in the form the
  termination proof reads; \<open>rmatch_star_iteration\<close> below shows that they drop exactly the
  iterations that end where they started); a negative lookahead succeeds, consuming
  nothing, where its body has no match.
\<close>

function rmatch :: "bool \<Rightarrow> regex \<Rightarrow> jsstring \<Rightarrow> nat \<Rightarrow> nat list" where
  "rmatch ic REmpty s i = [i]"
| "rmatch ic (RChar c) s i =
     (if i < length s \<and> canonicalize ic (s ! i) = canonicalize ic c then [Suc i] else [])"
| "rmatch ic (RSet neg cs) s i =
     (if i < length s \<and> (list_ex (\<lambda>a. canonicalize ic a = canonicalize ic (s ! i)) cs \<noteq> neg)
      then [Suc i] else [])"
| "rmatch ic RWordB s i =
     (if (0 < i \<and> i \<le> length s \<and> is_word_char (s ! (i - 1))) \<noteq> (i < length s \<and> is_word_char (s ! i))
      then [i] else [])"
| "rmatch ic (RNegLook r) s i = (if rmatch ic r s i = [] then [i] else [])"
| "rmatch ic (RSeq r1 r2) s i = concat (map (rmatch ic r2 s) (rmatch ic r1 s i))"
| "rmatch ic (RAlt r1 r2) s i = rmatch ic r1 s i @ rmatch ic r2 s i"
| "rmatch ic (RStar r) s i =
     concat (map (rmatch ic (RStar r) s) (filter (\<lambda>e. i < e \<and> e \<le> length s) (rmatch ic r s i))) @ [i]"
  by pat_completeness auto
termination
  by (relation "measures [\<lambda>(ic, r, s, i). size r, \<lambda>(ic, r, s, i). length s - i]") auto

text \<open>
  The search of \<^verbatim>\<open>RegExp.prototype.exec\<close>: from \<open>i\<close> on, the first position with a
  match, and the end of that match; no match once \<open>i\<close> is beyond the end of the string.
\<close>

function exec_from :: "bool \<Rightarrow> regex \<Rightarrow> jsstring \<Rightarrow> nat \<Rightarrow> (nat \<times> nat) option" where
  "exec_from ic r s i =
     (if length s < i then None
      else (case rmatch ic r s i of
              [] \<Rightarrow> exec_from ic r s (Suc i)
            | e # _ \<Rightarrow> Some (i, e)))"
  by pat_completeness auto
termination
  by (relation "measure (\<lambda>(ic, r, s, i). Suc (length s) - i)") auto

declare exec_from.simps [simp del]

text \<open>
  A regular expression with the \<^verbatim>\<open>g\<close> flag searches from its \<^verbatim>\<open>lastIndex\<close> and
  stores the end of the match there, or 0 when it finds none. The result is the match
  (start, end) and the new \<^verbatim>\<open>lastIndex\<close>.
\<close>

definition regexp_exec :: "bool \<Rightarrow> regex \<Rightarrow> jsstring \<Rightarrow> nat \<Rightarrow> (nat \<times> nat) option \<times> nat" where
  "regexp_exec ic r s lastIndex =
     (case exec_from ic r s lastIndex of
        None \<Rightarrow> (None, 0)
      | Some (p, e) \<Rightarrow> (Some (p, e), e))"

definition regexp_test :: "bool \<Rightarrow> regex \<Rightarrow> jsstring \<Rightarrow> nat \<Rightarrow> bool \<times> nat" where
  "regexp_test ic r s lastIndex =
     (case regexp_exec ic r s lastIndex of (m, li) \<Rightarrow> (m \<noteq> None, li))"


text \<open>
  The equation of the star rewrites its own right-hand side, so it is used by hand.
\<close>

declare rmatch.simps(8) [simp del]

text \<open>A match ends at or after its start, and inside the string.\<close>

lemma rmatch_ge: "e \<in> set (rmatch ic r s i) \<Longrightarrow> i \<le> e"
proof (induction ic r s i arbitrary: e rule: rmatch.induct)
  case (6 ic r1 r2 s i)
  then obtain m where "m \<in> set (rmatch ic r1 s i)" "e \<in> set (rmatch ic r2 s m)" by auto
  with 6 have "i \<le> m" "m \<le> e" by blast+
  then show ?case by simp
next
  case (8 ic r s i)
  show ?case
  proof (cases "e = i")
    case False
    with 8(3) obtain m where "m \<in> set (rmatch ic r s i)" "i < m" "m \<le> length s"
      "e \<in> set (rmatch ic (RStar r) s m)" by (auto simp add: rmatch.simps(8) [of ic r s i])
    with 8(2) have "m \<le> e" by simp
    with \<open>i < m\<close> show ?thesis by simp
  qed simp
qed (auto split: if_splits)

lemma rmatch_le: "e \<in> set (rmatch ic r s i) \<Longrightarrow> i \<le> length s \<Longrightarrow> e \<le> length s"
proof (induction ic r s i arbitrary: e rule: rmatch.induct)
  case (6 ic r1 r2 s i)
  then obtain m where "m \<in> set (rmatch ic r1 s i)" "e \<in> set (rmatch ic r2 s m)" by auto
  with 6 have "m \<le> length s" by blast
  with 6 \<open>e \<in> set (rmatch ic r2 s m)\<close> \<open>m \<in> set (rmatch ic r1 s i)\<close> show ?case by blast
next
  case (8 ic r s i)
  show ?case
  proof (cases "e = i")
    case False
    with 8(3) obtain m where "m \<in> set (rmatch ic r s i)" "i < m" "m \<le> length s"
      "e \<in> set (rmatch ic (RStar r) s m)" by (auto simp add: rmatch.simps(8) [of ic r s i])
    with 8(2) show ?thesis by simp
  next
    case True
    with 8(4) show ?thesis by simp
  qed
qed (auto split: if_splits)

lemma rmatch_star_iteration:
  "i \<le> length s \<Longrightarrow>
     filter (\<lambda>e. i < e \<and> e \<le> length s) (rmatch ic r s i) = filter (\<lambda>e. e \<noteq> i) (rmatch ic r s i)"
proof (rule filter_cong [OF refl])
  fix e assume "i \<le> length s" "e \<in> set (rmatch ic r s i)"
  then have "i \<le> e" "e \<le> length s" by (auto dest: rmatch_ge rmatch_le)
  then show "(i < e \<and> e \<le> length s) = (e \<noteq> i)" by auto
qed

lemma exec_from_Some:
  "exec_from ic r s i = Some (p, e) \<Longrightarrow>
     i \<le> p \<and> p \<le> e \<and> e \<le> length s \<and> (\<exists>es. rmatch ic r s p = e # es) \<and>
     (\<forall>j. i \<le> j \<and> j < p \<longrightarrow> rmatch ic r s j = [])"
proof (induction ic r s i rule: exec_from.induct)
  case (1 ic r s i)
  from "1.prems" have le: "i \<le> length s"
    by (simp add: exec_from.simps [of ic r s i] split: if_splits)
  show ?case
  proof (cases "rmatch ic r s i")
    case Nil
    with "1.prems" le have "exec_from ic r s (Suc i) = Some (p, e)"
      by (simp add: exec_from.simps [of ic r s i])
    with "1.IH" le Nil have *: "Suc i \<le> p \<and> p \<le> e \<and> e \<le> length s \<and>
        (\<exists>es. rmatch ic r s p = e # es) \<and> (\<forall>j. Suc i \<le> j \<and> j < p \<longrightarrow> rmatch ic r s j = [])"
      by simp
    have "rmatch ic r s j = []" if "i \<le> j" "j < p" for j
      using that * Nil by (cases "j = i") auto
    with * show ?thesis by auto
  next
    case (Cons e' es)
    with "1.prems" le have "p = i" "e' = e" by (simp_all add: exec_from.simps [of ic r s i])
    with Cons le rmatch_ge [of e ic r s i] rmatch_le [of e ic r s i] show ?thesis by auto
  qed
qed

lemma exec_from_None:
  "exec_from ic r s i = None \<longleftrightarrow> (\<forall>j. i \<le> j \<and> j \<le> length s \<longrightarrow> rmatch ic r s j = [])"
proof (induction ic r s i rule: exec_from.induct)
  case (1 ic r s i)
  show ?case
  proof (cases "length s < i")
    case True
    then show ?thesis by (auto simp add: exec_from.simps [of ic r s i])
  next
    case False
    show ?thesis
    proof (cases "rmatch ic r s i")
      case Nil
      with False "1.IH" have "exec_from ic r s i = None \<longleftrightarrow>
          (\<forall>j. Suc i \<le> j \<and> j \<le> length s \<longrightarrow> rmatch ic r s j = [])"
        by (simp add: exec_from.simps [of ic r s i])
      also have "\<dots> \<longleftrightarrow> (\<forall>j. i \<le> j \<and> j \<le> length s \<longrightarrow> rmatch ic r s j = [])"
        using Nil by (metis Suc_leI le_neq_implies_less Suc_leD)
      finally show ?thesis .
    next
      case (Cons e es)
      with False show ?thesis by (auto simp add: exec_from.simps [of ic r s i])
    qed
  qed
qed

lemma regexp_exec_advance:
  "regexp_exec ic r s lastIndex = (Some (p, e), li) \<Longrightarrow>
     lastIndex < (if e = p then Suc li else li) \<and> lastIndex \<le> length s"
  using exec_from_Some [of ic r s lastIndex p e]
  by (auto simp add: regexp_exec_def split: option.splits)

text \<open>
  \<^verbatim>\<open>String.prototype.replace\<close> with a regular expression that has the \<^verbatim>\<open>g\<close> flag
  and a replacement function \<open>f\<close> of the matched text: \<^verbatim>\<open>lastIndex\<close> is set to 0, the
  expression is executed until it finds no match (stepping over an empty match), and
  every match at or after the end of the previous one is replaced. The result is the new
  string and the \<^verbatim>\<open>lastIndex\<close> the expression is left with.
\<close>

function replace_loop ::
  "bool \<Rightarrow> regex \<Rightarrow> (jsstring \<Rightarrow> jsstring) \<Rightarrow> jsstring \<Rightarrow> nat \<Rightarrow> nat \<Rightarrow> jsstring \<Rightarrow> jsstring \<times> nat"
where
  "replace_loop ic r f s lastIndex nextPos acc =
     (case regexp_exec ic r s lastIndex of
        (None, li) \<Rightarrow> (acc @ drop nextPos s, li)
      | (Some (p, e), li) \<Rightarrow>
          (let li' = (if e = p then Suc li else li) in
           if nextPos \<le> p
           then replace_loop ic r f s li' e
                  (acc @ take (p - nextPos) (drop nextPos s) @ f (take (e - p) (drop p s)))
           else replace_loop ic r f s li' nextPos acc))"
  by pat_completeness auto
termination
proof (relation "measure (\<lambda>(ic, r, f, s, lastIndex, nextPos, acc). Suc (length s) - lastIndex)",
    goal_cases)
  case 1
  show ?case by simp
next
  case (2 ic r f s lastIndex nextPos acc x y xa x1 x2 li')
  with regexp_exec_advance [of ic r s lastIndex x1 x2 y] show ?case by auto
next
  case (3 ic r f s lastIndex nextPos acc x y xa x1 x2 li')
  with regexp_exec_advance [of ic r s lastIndex x1 x2 y] show ?case by auto
qed

declare replace_loop.simps [simp del]

definition string_replace ::
  "bool \<Rightarrow> regex \<Rightarrow> (jsstring \<Rightarrow> jsstring) \<Rightarrow> jsstring \<Rightarrow> jsstring \<times> nat" where
  "string_replace ic r f s = replace_loop ic r f s 0 0 []"


section \<open>The sanitizer\<close>

text \<open>
  \<^verbatim>\<open>HTML_ENTITIES\<close>: the object that maps each of the eight escaped characters to its
  entity. The keys \<^verbatim>\<open>"\<close> and \<^verbatim>\<open>'\<close> are written by their code units 0x22 and 0x27.
\<close>

definition HTML_ENTITIES :: "jsstring \<rightharpoonup> jsstring" where
  "HTML_ENTITIES = map_of
     [(str ''&'', str ''&amp;''),
      (str ''<'', str ''&lt;''),
      (str ''>'', str ''&gt;''),
      ([0x22], str ''&quot;''),
      ([0x27], str ''&#x27;''),
      (str ''/'', str ''&#x2F;''),
      (str ''`'', str ''&#x60;''),
      (str ''='', str ''&#x3D;'')]"

text \<open>
  The seven tag patterns of \<^verbatim>\<open>DANGEROUS_PATTERNS\<close> differ in the tag name only:
  \<^verbatim>\<open>/<NAME\b[^<]*(?:(?!<\/NAME>)<[^<]*)*<\/NAME>/gi\<close>.
\<close>

definition tag_block :: "string \<Rightarrow> regex" where
  "tag_block name =
     seqs (lit (''<'' @ name) @
           [RWordB,
            RStar (RSet True (str ''<'')),
            RStar (seqs [RNegLook (seqs (lit (''</'' @ name @ ''>''))),
                         RChar 0x3C,
                         RStar (RSet True (str ''<''))])] @
           lit (''</'' @ name @ ''>''))"

text \<open>\<^verbatim>\<open>/on\w+\s*=/gi\<close>\<close>

definition on_handler :: regex where
  "on_handler =
     seqs (lit ''on'' @ [RPlus (RSet False word_chars), RStar (RSet False white_space), RChar 0x3D])"

definition DANGEROUS_PATTERNS :: "regex list" where
  "DANGEROUS_PATTERNS =
     [tag_block ''script'',
      tag_block ''iframe'',
      tag_block ''object'',
      tag_block ''embed'',
      tag_block ''link'',
      tag_block ''meta'',
      tag_block ''style'',
      seqs (lit ''javascript:''),
      seqs (lit ''vbscript:''),
      seqs (lit ''data:''),
      on_handler]"

text \<open>
  The patterns are module-level objects with the \<^verbatim>\<open>g\<close> flag: each keeps its
  \<^verbatim>\<open>lastIndex\<close> from one call to the next. The state of the module is the
  \<^verbatim>\<open>lastIndex\<close> of each pattern, by its index in \<^verbatim>\<open>DANGEROUS_PATTERNS\<close>; all are 0
  when the module is loaded. The regular expression literals inside the functions are
  created anew at each evaluation, with \<^verbatim>\<open>lastIndex\<close> 0.
\<close>

type_synonym pattern_state = "nat \<Rightarrow> nat"

definition initial_state :: pattern_state where
  "initial_state = (\<lambda>k. 0)"

text \<open>\<^verbatim>\<open>/[&<>"'`=\/]/g\<close> and \<^verbatim>\<open>/<[^>]*>/g\<close> and \<^verbatim>\<open>/javascript:|data:/gi\<close>\<close>

definition special_chars :: regex where
  "special_chars = RSet False (str ''&<>'' @ [0x22, 0x27] @ str ''`=/'')"

definition any_tag :: regex where
  "any_tag = seqs [RChar 0x3C, RStar (RSet True (str ''>'')), RChar 0x3E]"

definition script_or_data_url :: regex where
  "script_or_data_url = RAlt (seqs (lit ''javascript:'')) (seqs (lit ''data:''))"

definition escapeHtml :: "jsstring \<Rightarrow> jsstring" where
  "escapeHtml text =
     fst (string_replace False special_chars
            (\<lambda>char. case HTML_ENTITIES char of
                       Some entity \<Rightarrow> if entity \<noteq> [] then entity else char
                     | None \<Rightarrow> char)
            text)"

text \<open>
  \<^verbatim>\<open>removeDangerousPatterns\<close>: the \<^verbatim>\<open>forEach\<close> over the patterns, each replacing its
  matches in the result of the one before by the empty string.
\<close>

fun remove_each :: "(nat \<times> regex) list \<Rightarrow> jsstring \<Rightarrow> pattern_state \<Rightarrow> jsstring \<times> pattern_state" where
  "remove_each [] sanitized st = (sanitized, st)"
| "remove_each ((k, pattern) # ps) sanitized st =
     (case string_replace True pattern (\<lambda>m. []) sanitized of
        (sanitized', li) \<Rightarrow> remove_each ps sanitized' (st(k := li)))"

definition removeDangerousPatterns :: "jsstring \<Rightarrow> pattern_state \<Rightarrow> jsstring \<times> pattern_state" where
  "removeDangerousPatterns text st = remove_each (enumerate 0 DANGEROUS_PATTERNS) text st"

text \<open>
  \<^verbatim>\<open>sanitizeInput\<close>. Of the guard \<^verbatim>\<open>!input || typeof input !== "string"\<close>, the second
  part is the case of a value that is not a string, and the first part, on a string, is
  \<open>to_boolean\<close>. Then the steps: trim, remove the patterns, escape, strip what still
  looks like a tag, and cut at 5000 code units.
\<close>

definition sanitizeInput :: "jsvalue \<Rightarrow> pattern_state \<Rightarrow> jsstring \<times> pattern_state" where
  "sanitizeInput input st =
     (case input of
        JString text \<Rightarrow>
          if \<not> to_boolean input then ([], st)
          else
            (case removeDangerousPatterns (trim text) st of
               (sanitized1, st') \<Rightarrow>
                 let sanitized2 = escapeHtml sanitized1;
                     sanitized3 = fst (string_replace False any_tag (\<lambda>m. []) sanitized2)
                 in (if length sanitized3 > 5000 then take 5000 sanitized3 else sanitized3, st'))
      | _ \<Rightarrow> ([], st))"

text \<open>
  \<^verbatim>\<open>isInputSafe\<close>: the loop over the patterns returns at the first pattern whose
  \<^verbatim>\<open>test\<close> succeeds; \<open>test_each\<close> tells whether it did.
\<close>

fun test_each :: "(nat \<times> regex) list \<Rightarrow> jsstring \<Rightarrow> pattern_state \<Rightarrow> bool \<times> pattern_state" where
  "test_each [] input st = (False, st)"
| "test_each ((k, pattern) # ps) input st =
     (case regexp_test True pattern input (st k) of
        (found, li) \<Rightarrow> if found then (True, st(k := li)) else test_each ps input (st(k := li)))"

definition isInputSafe :: "jsvalue \<Rightarrow> pattern_state \<Rightarrow> bool \<times> pattern_state" where
  "isInputSafe input st =
     (case input of
        JString text \<Rightarrow>
          if \<not> to_boolean input then (True, st)
          else
            (case test_each (enumerate 0 DANGEROUS_PATTERNS) text st of
               (found, st') \<Rightarrow>
                 if found then (False, st')
                 else if fst (regexp_test False any_tag text 0) then (False, st')
                 else if fst (regexp_test True script_or_data_url text 0) then (False, st')
                 else (True, st'))
      | _ \<Rightarrow> (True, st))"

text \<open>\<^verbatim>\<open>sanitizeNoteInput\<close> throws an \<^verbatim>\<open>Error\<close> with a message, or returns.\<close>

datatype js_error = Error jsstring

definition sanitizeNoteInput :: "jsvalue \<Rightarrow> pattern_state \<Rightarrow> (js_error + jsstring) \<times> pattern_state" where
  "sanitizeNoteInput input st =
     (case sanitizeInput input st of
        (sanitized, st1) \<Rightarrow>
          (case isInputSafe (JString sanitized) st1 of
             (safe, st2) \<Rightarrow>
               if \<not> safe
               then (Inl (Error (str ''Invalid input: Contains potentially dangerous content'')), st2)
               else (Inr sanitized, st2)))"


section \<open>Notions for the properties\<close>

text \<open>
  Replacing the matches of a character set is a character-by-character substitution.
\<close>

definition replace_chars :: "cu list \<Rightarrow> (jsstring \<Rightarrow> jsstring) \<Rightarrow> jsstring \<Rightarrow> jsstring" where
  "replace_chars cs f s = concat (map (\<lambda>c. if c \<in> set cs then f [c] else [c]) s)"

text \<open>
  \<open>escapeHtml\<close> substitutes the entity for each of the eight characters; the characters
  \<open>raw_chars\<close> occur in no entity.
\<close>

definition special_list :: "cu list" where
  "special_list = str ''&<>'' @ [0x22, 0x27] @ str ''`=/''"

definition entity_of :: "jsstring \<Rightarrow> jsstring" where
  "entity_of char = (case HTML_ENTITIES char of
                       Some entity \<Rightarrow> if entity \<noteq> [] then entity else char
                     | None \<Rightarrow> char)"

definition raw_chars :: "cu list" where
  "raw_chars = [0x3C, 0x3E, 0x22, 0x27, 0x60, 0x3D, 0x2F]"

text \<open>
  Containment of a literal in a text, compared case-insensitively: how the properties
  below speak of the dangerous substrings.
\<close>

fun starts_with_ci :: "jsstring \<Rightarrow> jsstring \<Rightarrow> bool" where
  "starts_with_ci [] hay = True"
| "starts_with_ci (c # cs) [] = False"
| "starts_with_ci (c # cs) (h # hs) =
     (canonicalize True c = canonicalize True h \<and> starts_with_ci cs hs)"

fun contains_ci :: "jsstring \<Rightarrow> jsstring \<Rightarrow> bool" where
  "contains_ci needle [] = (needle = [])"
| "contains_ci needle (h # hs) = (starts_with_ci needle (h # hs) \<or> contains_ci needle hs)"


section \<open>Properties of the operations\<close>

lemma canonicalize_False [simp]: "canonicalize False c = c"
  by (simp add: canonicalize_def)

lemma canonicalize_range:
  "canonicalize True c = d \<Longrightarrow> \<not> (0x41 \<le> d \<and> d \<le> 0x5A) \<Longrightarrow> c = d"
  unfolding canonicalize_def by (auto split: if_splits) unat_arith+

lemma canonicalize_lt [simp]: "canonicalize ic c = 0x3C \<longleftrightarrow> c = 0x3C"
  using canonicalize_range [of c "0x3C"] by (cases ic) (auto simp add: canonicalize_def)

lemma replace_loop_lastIndex: "snd (replace_loop ic r f s li np acc) = 0"
proof (induction ic r f s li np acc rule: replace_loop.induct)
  case (1 ic r f s lastIndex nextPos acc)
  show ?case
  proof (cases "exec_from ic r s lastIndex")
    case None
    then show ?thesis by (simp add: replace_loop.simps [of ic r f s lastIndex] regexp_exec_def)
  next
    case (Some pe)
    obtain p e where pe: "pe = (p, e)" by (cases pe)
    with Some have ex: "regexp_exec ic r s lastIndex = (Some (p, e), e)"
      by (simp add: regexp_exec_def)
    show ?thesis
    proof (cases "nextPos \<le> p")
      case True
      with ex "1.IH"(1) [OF ex [symmetric] refl refl refl True] show ?thesis
        by (simp add: replace_loop.simps [of ic r f s lastIndex])
    next
      case False
      with ex "1.IH"(2) [OF ex [symmetric] refl refl refl False] show ?thesis
        by (simp add: replace_loop.simps [of ic r f s lastIndex])
    qed
  qed
qed

lemma string_replace_no_match:
  "exec_from ic r s 0 = None \<Longrightarrow> string_replace ic r f s = (s, 0)"
  by (simp add: string_replace_def replace_loop.simps [of ic r f s 0] regexp_exec_def)


lemma rmatch_head_char:
  "rmatch ic (RSeq (RChar c) r) s i \<noteq> [] \<Longrightarrow> i < length s \<and> canonicalize ic (s ! i) = canonicalize ic c"
  by (auto split: if_splits)

lemma exec_from_None_head:
  assumes "\<forall>x \<in> set s. canonicalize ic x \<noteq> canonicalize ic c"
  shows "exec_from ic (RSeq (RChar c) r) s i = None"
  unfolding exec_from_None using assms by auto

lemma rmatch_class:
  "rmatch False (RSet False cs) s i = (if i < length s \<and> s ! i \<in> set cs then [Suc i] else [])"
  by (auto simp add: list_ex_iff)

lemma replace_chars_id: "set s \<inter> set cs = {} \<Longrightarrow> replace_chars cs f s = s"
  unfolding replace_chars_def by (induction s) auto

lemma replace_loop_class:
  "li \<le> length s \<Longrightarrow>
     replace_loop False (RSet False cs) f s li li acc = (acc @ replace_chars cs f (drop li s), 0)"
proof (induction "length s - li" arbitrary: li acc rule: less_induct)
  case less
  let ?r = "RSet False cs"
  show ?case
  proof (cases "exec_from False ?r s li")
    case None
    then have "\<forall>j. li \<le> j \<and> j \<le> length s \<longrightarrow> rmatch False ?r s j = []"
      by (simp add: exec_from_None)
    then have "\<forall>j. li \<le> j \<and> j < length s \<longrightarrow> s ! j \<notin> set cs"
      by (auto simp add: rmatch_class simp del: rmatch.simps split: if_splits)
    then have "set (drop li s) \<inter> set cs = {}"
      by (auto simp add: in_set_conv_nth)
    then have "replace_chars cs f (drop li s) = drop li s" by (rule replace_chars_id)
    with None show ?thesis
      by (simp add: replace_loop.simps [of False ?r f s li] regexp_exec_def)
  next
    case (Some pe)
    obtain p e where pe: "pe = (p, e)" by (cases pe)
    from exec_from_Some [of False ?r s li p e] Some pe
    have f: "li \<le> p" "\<exists>es. rmatch False ?r s p = e # es"
      "\<forall>j. li \<le> j \<and> j < p \<longrightarrow> rmatch False ?r s j = []" by auto
    from f(2) have e: "e = Suc p" "p < length s" "s ! p \<in> set cs"
      by (auto simp add: rmatch_class simp del: rmatch.simps split: if_splits)
    from f(3) e(2) have "\<forall>j. li \<le> j \<and> j < p \<longrightarrow> s ! j \<notin> set cs"
      by (auto simp add: rmatch_class simp del: rmatch.simps split: if_splits)
    then have "set (take (p - li) (drop li s)) \<inter> set cs = {}"
      using e(2) f(1) by (auto simp add: in_set_conv_nth)
    then have pre: "replace_chars cs f (take (p - li) (drop li s)) = take (p - li) (drop li s)"
      by (rule replace_chars_id)
    have split: "drop li s = take (p - li) (drop li s) @ s ! p # drop (Suc p) s"
      using e(2) f(1)
      by (metis Cons_nth_drop_Suc append_take_drop_id drop_drop le_add_diff_inverse2)
    have "replace_chars cs f (drop li s) =
        take (p - li) (drop li s) @ f [s ! p] @ replace_chars cs f (drop (Suc p) s)"
      by (subst split) (use pre e(3) in \<open>simp add: replace_chars_def\<close>)
    moreover have "take (Suc p - p) (drop p s) = [s ! p]"
      using e(2) by (simp add: take_Suc_conv_app_nth hd_drop_conv_nth take_Suc)
    moreover have "replace_loop False ?r f s (Suc p) (Suc p)
        (acc @ take (p - li) (drop li s) @ f [s ! p]) =
        ((acc @ take (p - li) (drop li s) @ f [s ! p]) @ replace_chars cs f (drop (Suc p) s), 0)"
      using less(1) [of "Suc p"] e(2) f(1) by simp
    ultimately show ?thesis
      using Some pe e f(1)
      by (simp add: replace_loop.simps [of False ?r f s li] regexp_exec_def)
  qed
qed

lemma string_replace_class:
  "string_replace False (RSet False cs) f s = (replace_chars cs f s, 0)"
  using replace_loop_class [of 0 s cs f "[]"] by (simp add: string_replace_def)


lemma escapeHtml_replace_chars: "escapeHtml s = replace_chars special_list entity_of s"
  unfolding escapeHtml_def special_chars_def special_list_def [symmetric] entity_of_def [symmetric, abs_def]
  by (simp add: string_replace_class)

lemma entity_of_clean: "c \<in> set special_list \<Longrightarrow> set (entity_of [c]) \<inter> set raw_chars = {}"
  by (auto simp add: special_list_def entity_of_def HTML_ENTITIES_def str_def raw_chars_def)

lemma concat_map_clean: "(\<And>c. set (g c) \<inter> B = {}) \<Longrightarrow> set (concat (map g s)) \<inter> B = {}"
  by (induction s) auto

lemma escapeHtml_clean: "set (escapeHtml s) \<inter> set raw_chars = {}"
proof -
  have "set (if c \<in> set special_list then entity_of [c] else [c]) \<inter> set raw_chars = {}" for c
  proof (cases "c \<in> set special_list")
    case True
    then show ?thesis by (simp add: entity_of_clean)
  next
    case False
    then show ?thesis by (auto simp add: special_list_def raw_chars_def str_def)
  qed
  then show ?thesis
    unfolding escapeHtml_replace_chars replace_chars_def by (rule concat_map_clean)
qed

lemma escapeHtml_id: "set s \<inter> set special_list = {} \<Longrightarrow> escapeHtml s = s"
  by (simp add: escapeHtml_replace_chars replace_chars_id)

lemma any_tag_no_match: "0x3C \<notin> set s \<Longrightarrow> exec_from False any_tag s 0 = None"
  unfolding any_tag_def seqs_def foldr.simps o_apply by (rule exec_from_None_head) auto

lemma strip_tags_id: "0x3C \<notin> set s \<Longrightarrow> string_replace False any_tag f s = (s, 0)"
  by (simp add: any_tag_no_match string_replace_no_match)

lemma sanitizeInput_string:
  "text \<noteq> [] \<Longrightarrow>
     fst (sanitizeInput (JString text) st) =
       (let sanitized = escapeHtml (fst (removeDangerousPatterns (trim text) st))
        in if length sanitized > 5000 then take 5000 sanitized else sanitized)"
proof -
  assume "text \<noteq> []"
  have "0x3C \<notin> set (escapeHtml t)" for t
    using escapeHtml_clean [of t] by (auto simp add: raw_chars_def)
  then have "string_replace False any_tag (\<lambda>m. []) (escapeHtml t) = (escapeHtml t, 0)" for t
    by (rule strip_tags_id)
  with \<open>text \<noteq> []\<close> show ?thesis
    by (simp add: sanitizeInput_def Let_def split: prod.splits)
qed

lemma sanitizeInput_not_string: "\<not> (is_string v \<and> to_boolean v) \<Longrightarrow> sanitizeInput v st = ([], st)"
  by (cases v) (simp_all add: sanitizeInput_def)

lemma sanitizeInput_clean: "set (fst (sanitizeInput v st)) \<inter> set raw_chars = {}"
proof (cases "is_string v \<and> to_boolean v")
  case True
  then obtain s where v: "v = JString s" "s \<noteq> []" by (cases v) auto
  have "set (take 5000 (escapeHtml t)) \<inter> set raw_chars = {}" for t
    using escapeHtml_clean [of t] set_take_subset [of 5000 "escapeHtml t"] by blast
  with v show ?thesis by (simp add: sanitizeInput_string Let_def escapeHtml_clean)
next
  case False
  then show ?thesis by (simp add: sanitizeInput_not_string)
qed

lemma isInputSafe_tag:
  "fst (regexp_test False any_tag s 0) \<Longrightarrow> fst (isInputSafe (JString s) st) = False"
proof -
  assume a: "fst (regexp_test False any_tag s 0)"
  have "\<not> fst (regexp_test False any_tag [] 0)" by code_simp
  with a have "s \<noteq> []" by auto
  with a show ?thesis by (simp add: isInputSafe_def split: prod.splits)
qed


lemma canonicalize_3C [simp]: "canonicalize ic 0x3C = 0x3C"
  by (simp add: canonicalize_def)

lemma canonicalize_3D [simp]: "canonicalize ic 0x3D = 0x3D"
  by (simp add: canonicalize_def)

lemma sanitizeInput_unfold:
  "s \<noteq> [] \<Longrightarrow>
     fst (sanitizeInput (JString s) st) =
       (let sanitized = fst (string_replace False any_tag (\<lambda>m. [])
                              (escapeHtml (fst (removeDangerousPatterns (trim s) st))))
        in if 5000 < length sanitized then take 5000 sanitized else sanitized)"
  by (simp add: sanitizeInput_def Let_def split: prod.splits)

lemma canonicalize_eq [simp]: "canonicalize ic c = 0x3D \<longleftrightarrow> c = 0x3D"
  using canonicalize_range [of c "0x3D"] by (cases ic) (auto simp add: canonicalize_def)

text \<open>\<open>trim\<close> keeps a middle part of the string, and trims nothing twice.\<close>

lemma set_trim: "set (trim s) \<subseteq> set s"
  by (auto simp add: trim_def dest!: set_dropWhileD)

lemma length_trim: "length (trim s) \<le> length s"
  unfolding trim_def by (metis length_dropWhile_le length_rev le_trans)

lemma trim_split: "\<exists>pre post. s = pre @ trim s @ post"
proof -
  let ?u = "dropWhile is_white_space s"
  have "rev ?u = takeWhile is_white_space (rev ?u) @ dropWhile is_white_space (rev ?u)" by simp
  then have "?u = rev (dropWhile is_white_space (rev ?u)) @ rev (takeWhile is_white_space (rev ?u))"
    by (metis rev_append rev_rev_ident)
  then have "s = takeWhile is_white_space s @ trim s @ rev (takeWhile is_white_space (rev ?u))"
    unfolding trim_def by (metis takeWhile_dropWhile_id)
  then show ?thesis by blast
qed

lemma trim_head: "trim s \<noteq> [] \<Longrightarrow> \<not> is_white_space (hd (trim s))"
proof -
  assume a: "trim s \<noteq> []"
  let ?u = "dropWhile is_white_space s"
  have "?u = trim s @ rev (takeWhile is_white_space (rev ?u))"
    unfolding trim_def by (metis rev_append rev_rev_ident takeWhile_dropWhile_id)
  with a have "hd (trim s) = hd ?u" "?u \<noteq> []" by (metis hd_append2, metis append_is_Nil_conv)
  then show ?thesis using hd_dropWhile [of is_white_space s] by simp
qed

lemma trim_trim: "trim (trim s) = trim s"
proof (cases "trim s = []")
  case True
  have "trim [] = []" by (simp add: trim_def)
  with True show ?thesis by simp
next
  case False
  then have "dropWhile is_white_space (trim s) = trim s"
    using trim_head [of s] by (cases "trim s") auto
  then have "trim (trim s) = rev (dropWhile is_white_space (rev (trim s)))"
    by (simp add: trim_def)
  also have "\<dots> = trim s" by (simp add: trim_def dropWhile_idem)
  finally show ?thesis .
qed

text \<open>
  Where the patterns cannot match: a pattern matches only where its first character is, the
  event handler pattern only before a \<^verbatim>\<open>=\<close>, and a literal matches in a part of a string
  only if it matches in the string.
\<close>

lemma seqs_Cons: "seqs (r # rs) = RSeq r (seqs rs)"
  by (simp add: seqs_def)

lemma seqs_Nil: "seqs [] = REmpty"
  by (simp add: seqs_def)

lemma rmatch_seq_dead: "(\<And>m. rmatch ic r2 s m = []) \<Longrightarrow> rmatch ic (RSeq r1 r2) s i = []"
  by simp

lemma rmatch_head_dead:
  "\<forall>x \<in> set s. canonicalize ic x \<noteq> canonicalize ic c \<Longrightarrow> rmatch ic (RSeq (RChar c) r) s i = []"
  by auto

lemma rmatch_literal:
  "i \<le> length s \<Longrightarrow>
     rmatch ic (seqs (map RChar cs)) s i =
       (if i + length cs \<le> length s \<and>
           map (canonicalize ic) (take (length cs) (drop i s)) = map (canonicalize ic) cs
        then [i + length cs] else [])"
proof (induction cs arbitrary: i)
  case Nil
  then show ?case by (simp add: seqs_Nil)
next
  case (Cons c cs)
  show ?case
  proof (cases "i < length s")
    case True
    then have d: "drop i s = s ! i # drop (Suc i) s" by (simp add: Cons_nth_drop_Suc)
    from True have step: "rmatch ic (seqs (map RChar (c # cs))) s i =
        (if canonicalize ic (s ! i) = canonicalize ic c
         then rmatch ic (seqs (map RChar cs)) s (Suc i) else [])"
      by (simp add: seqs_Cons)
    from True have ih: "rmatch ic (seqs (map RChar cs)) s (Suc i) =
        (if Suc i + length cs \<le> length s \<and>
            map (canonicalize ic) (take (length cs) (drop (Suc i) s)) = map (canonicalize ic) cs
         then [Suc i + length cs] else [])"
      by (intro Cons.IH) simp
    show ?thesis unfolding step ih by (simp add: d)
  next
    case False
    then show ?thesis by (simp add: seqs_Cons)
  qed
qed

lemma literal_transfer:
  assumes "exec_from ic (seqs (map RChar cs)) (pre @ t @ post) 0 = None"
  shows "exec_from ic (seqs (map RChar cs)) t 0 = None"
proof -
  let ?L = "seqs (map RChar cs)" and ?s = "pre @ t @ post"
  have "rmatch ic ?L t i = []" if i: "i \<le> length t" for i
  proof (rule ccontr)
    assume "rmatch ic ?L t i \<noteq> []"
    with i have m: "i + length cs \<le> length t"
      "map (canonicalize ic) (take (length cs) (drop i t)) = map (canonicalize ic) cs"
      by (auto simp add: rmatch_literal split: if_splits)
    have "take (length cs) (drop (length pre + i) ?s) = take (length cs) (drop i t)"
      using m(1) i by simp
    with m have "rmatch ic ?L ?s (length pre + i) \<noteq> []"
      by (simp add: rmatch_literal)
    moreover from assms i have "rmatch ic ?L ?s (length pre + i) = []"
      by (simp add: exec_from_None)
    ultimately show False by simp
  qed
  then show ?thesis by (simp add: exec_from_None)
qed

lemma literal_trim:
  "exec_from ic (seqs (lit cs)) s 0 = None \<Longrightarrow> exec_from ic (seqs (lit cs)) (trim s) 0 = None"
  using trim_split [of s] literal_transfer [of ic "str cs" _ "trim s"]
  unfolding lit_def by metis


lemma tag_block_head: "\<exists>r. tag_block name = RSeq (RChar 0x3C) r"
  by (simp add: tag_block_def lit_def str_def seqs_Cons)

lemma tag_block_dead: "0x3C \<notin> set s \<Longrightarrow> exec_from True (tag_block name) s 0 = None"
proof -
  assume a: "0x3C \<notin> set s"
  obtain r where r: "tag_block name = RSeq (RChar 0x3C) r" using tag_block_head by blast
  from a have "\<forall>x \<in> set s. canonicalize True x \<noteq> canonicalize True 0x3C" by auto
  then show ?thesis unfolding r by (rule exec_from_None_head)
qed

lemma on_handler_dead: "0x3D \<notin> set s \<Longrightarrow> exec_from True on_handler s 0 = None"
proof -
  assume a: "0x3D \<notin> set s"
  then have "\<forall>x \<in> set s. canonicalize True x \<noteq> canonicalize True 0x3D" by auto
  then have dead: "rmatch True (RSeq (RChar 0x3D) REmpty) s m = []" for m
    by (rule rmatch_head_dead)
  have "rmatch True on_handler s i = []" for i
    unfolding on_handler_def lit_def str_def list.map append.simps seqs_Cons seqs_Nil
    by (rule rmatch_seq_dead, rule rmatch_seq_dead, rule rmatch_seq_dead, rule rmatch_seq_dead,
        rule dead)
  then show ?thesis by (simp add: exec_from_None)
qed

lemma patterns_cases:
  "p \<in> set DANGEROUS_PATTERNS \<Longrightarrow>
     (\<exists>name. p = tag_block name) \<or> (\<exists>cs. p = seqs (lit cs)) \<or> p = on_handler"
  by (auto simp add: DANGEROUS_PATTERNS_def)

lemma patterns_head:
  "p \<in> set DANGEROUS_PATTERNS \<Longrightarrow> \<exists>c r. p = RSeq (RChar c) r \<and> c \<in> set (str ''<jvdo'')"
  by (auto simp add: DANGEROUS_PATTERNS_def tag_block_def on_handler_def lit_def str_def seqs_Cons)

lemma patterns_dead_by_head:
  assumes "\<forall>x \<in> set s. \<forall>c \<in> set (str ''<jvdo''). canonicalize True x \<noteq> canonicalize True c"
    and "p \<in> set DANGEROUS_PATTERNS"
  shows "exec_from True p s 0 = None"
proof -
  from patterns_head [OF assms(2)] obtain c r where
    p: "p = RSeq (RChar c) r" "c \<in> set (str ''<jvdo'')" by blast
  with assms(1) have "\<forall>x \<in> set s. canonicalize True x \<noteq> canonicalize True c" by blast
  then show ?thesis unfolding p(1) by (rule exec_from_None_head)
qed

text \<open>A text that no pattern matches and that has no special character passes unchanged.\<close>

lemma remove_each_id:
  "\<forall>kp \<in> set ps. exec_from True (snd kp) s 0 = None \<Longrightarrow> fst (remove_each ps s st) = s"
  by (induction ps arbitrary: st) (auto simp add: string_replace_no_match)

lemma removeDangerousPatterns_id:
  "\<forall>p \<in> set DANGEROUS_PATTERNS. exec_from True p s 0 = None \<Longrightarrow>
     fst (removeDangerousPatterns s st) = s"
  unfolding removeDangerousPatterns_def
  by (rule remove_each_id) (auto simp add: in_set_enumerate_eq)

lemma regexp_test_fresh: "(\<not> fst (regexp_test ic r s 0)) = (exec_from ic r s 0 = None)"
  by (auto simp add: regexp_test_def regexp_exec_def split: option.splits)

lemma trim_Nil: "trim [] = []"
  by (simp add: trim_def)

lemma sanitizeInput_safe_text:
  assumes "set (trim s) \<inter> set special_list = {}"
    and "\<forall>p \<in> set DANGEROUS_PATTERNS. exec_from True p (trim s) 0 = None"
  shows "fst (sanitizeInput (JString s) st) =
           (if 5000 < length (trim s) then take 5000 (trim s) else trim s)"
proof (cases "s = []")
  case True
  then show ?thesis by (simp add: sanitizeInput_def trim_Nil)
next
  case False
  from assms(2) have "fst (removeDangerousPatterns (trim s) st) = trim s"
    by (rule removeDangerousPatterns_id)
  moreover from assms(1) have "escapeHtml (trim s) = trim s" by (rule escapeHtml_id)
  ultimately show ?thesis using False by (simp add: sanitizeInput_string)
qed

lemma safe_text_trimmed:
  assumes "set s \<inter> set special_list = {}"
    and "\<forall>p \<in> set DANGEROUS_PATTERNS. exec_from True p s 0 = None"
  shows "\<forall>p \<in> set DANGEROUS_PATTERNS. exec_from True p (trim s) 0 = None"
proof
  fix p assume p: "p \<in> set DANGEROUS_PATTERNS"
  from assms(1) set_trim [of s] have "set (trim s) \<inter> set special_list = {}" by blast
  then have c: "0x3C \<notin> set (trim s)" "0x3D \<notin> set (trim s)"
    by (auto simp add: special_list_def str_def)
  from patterns_cases [OF p] show "exec_from True p (trim s) 0 = None"
  proof (elim disjE exE)
    fix name assume "p = tag_block name"
    with c(1) show ?thesis by (simp add: tag_block_dead)
  next
    fix cs assume "p = seqs (lit cs)"
    with assms(2) p show ?thesis by (simp add: literal_trim)
  next
    assume "p = on_handler"
    with c(2) show ?thesis by (simp add: on_handler_dead)
  qed
qed

lemma trim_replicate: "\<not> is_white_space c \<Longrightarrow> trim (replicate n c) = replicate n c"
proof -
  assume a: "\<not> is_white_space c"
  then have "dropWhile is_white_space (replicate n c) = replicate n c"
    by (cases n) simp_all
  then show ?thesis by (simp add: trim_def)
qed

lemma sanitize_steps_Nil:
  "fst (string_replace False any_tag f (escapeHtml (fst (removeDangerousPatterns (trim []) st)))) = []"
proof -
  have "\<forall>p \<in> set DANGEROUS_PATTERNS. exec_from True p [] 0 = None"
    by (simp add: patterns_dead_by_head)
  then have "fst (removeDangerousPatterns [] st) = []" by (rule removeDangerousPatterns_id)
  then show ?thesis by (simp add: trim_Nil escapeHtml_id strip_tags_id)
qed

lemma sanitize_steps_letters:
  "fst (string_replace False any_tag f
          (escapeHtml (fst (removeDangerousPatterns (trim (replicate n 0x61)) st)))) = replicate n 0x61"
proof -
  let ?s = "replicate n (0x61 :: cu)"
  have t: "trim ?s = ?s" by (rule trim_replicate) (simp add: is_white_space_def white_space_def)
  have "\<forall>p \<in> set DANGEROUS_PATTERNS. exec_from True p ?s 0 = None"
    by (intro ballI patterns_dead_by_head) (auto simp add: str_def canonicalize_def)
  then have "fst (removeDangerousPatterns ?s st) = ?s" by (rule removeDangerousPatterns_id)
  moreover have "escapeHtml ?s = ?s"
    by (rule escapeHtml_id) (auto simp add: special_list_def str_def)
  moreover have "string_replace False any_tag f ?s = (?s, 0)"
    by (rule strip_tags_id) simp
  ultimately show ?thesis by (simp add: t)
qed

text \<open>
  Every replacement leaves its pattern at \<^verbatim>\<open>lastIndex\<close> 0, and the loop of
  \<^verbatim>\<open>isInputSafe\<close> reads the \<^verbatim>\<open>lastIndex\<close> of the eleven patterns only.
\<close>

lemma string_replace_lastIndex: "snd (string_replace ic r f s) = 0"
  by (simp add: string_replace_def replace_loop_lastIndex)

lemma remove_each_text: "fst (remove_each ps s st) = fst (remove_each ps s st')"
  by (induction ps arbitrary: s st st') (auto split: prod.splits)

lemma remove_each_state:
  "snd (remove_each ps s st) k = (if k \<in> fst ` set ps then 0 else st k)"
proof (induction ps arbitrary: s st)
  case Nil
  then show ?case by simp
next
  case (Cons kp ps)
  obtain k0 p where kp: "kp = (k0, p)" by (cases kp)
  obtain s' li where r: "string_replace True p (\<lambda>m. []) s = (s', li)" by fastforce
  with string_replace_lastIndex [of True p "\<lambda>m. []" s] have "li = 0" by simp
  with kp r have "remove_each (kp # ps) s st = remove_each ps s' (st(k0 := 0))" by simp
  moreover have "snd (remove_each ps s' (st(k0 := 0))) k =
      (if k \<in> fst ` set ps then 0 else (st(k0 := 0)) k)"
    by (rule Cons.IH)
  ultimately have "snd (remove_each (kp # ps) s st) k =
      (if k \<in> fst ` set ps then 0 else (st(k0 := 0)) k)"
    by (simp only:)
  then show ?case using kp by auto
qed

lemma test_each_agree:
  "\<forall>k \<in> fst ` set ps. st k = st' k \<Longrightarrow> fst (test_each ps s st) = fst (test_each ps s st')"
proof (induction ps arbitrary: st st')
  case Nil
  then show ?case by simp
next
  case (Cons kp ps)
  obtain k0 p where kp: "kp = (k0, p)" by (cases kp)
  with Cons.prems have e: "st k0 = st' k0" by simp
  obtain found li where r: "regexp_test True p s (st' k0) = (found, li)" by fastforce
  from Cons.prems kp have "\<forall>k \<in> fst ` set ps. (st(k0 := li)) k = (st'(k0 := li)) k" by simp
  then have "fst (test_each ps s (st(k0 := li))) = fst (test_each ps s (st'(k0 := li)))"
    by (rule Cons.IH)
  with kp e r show ?case by simp
qed

lemma test_each_not_found:
  "\<not> fst (test_each ps s st) \<Longrightarrow> distinct (map fst ps) \<Longrightarrow> (k, p) \<in> set ps \<Longrightarrow>
     \<not> fst (regexp_test True p s (st k))"
proof (induction ps arbitrary: st)
  case Nil
  then show ?case by simp
next
  case (Cons kp ps)
  obtain k0 p0 where kp: "kp = (k0, p0)" by (cases kp)
  obtain found li where r: "regexp_test True p0 s (st k0) = (found, li)" by fastforce
  from Cons.prems(1) kp r have nf: "\<not> found" "\<not> fst (test_each ps s (st(k0 := li)))"
    by (auto split: if_splits)
  show ?case
  proof (cases "(k, p) = (k0, p0)")
    case True
    with r nf(1) show ?thesis by simp
  next
    case False
    with Cons.prems(3) kp have in_ps: "(k, p) \<in> set ps" by auto
    with Cons.prems(2) kp have "k \<noteq> k0" by force
    moreover from Cons.prems(2) have "distinct (map fst ps)" by simp
    from Cons.IH [OF nf(2) this in_ps] have "\<not> fst (regexp_test True p s ((st(k0 := li)) k))" .
    ultimately show ?thesis by simp
  qed
qed

lemma pattern_keys: "fst ` set (enumerate 0 DANGEROUS_PATTERNS) = {..<11}"
proof -
  have len: "length DANGEROUS_PATTERNS = 11" by (simp add: DANGEROUS_PATTERNS_def)
  have m: "map fst (enumerate 0 DANGEROUS_PATTERNS) = [0..<11]"
    unfolding map_fst_enumerate len by simp
  have "fst ` set (enumerate 0 DANGEROUS_PATTERNS) = set (map fst (enumerate 0 DANGEROUS_PATTERNS))"
    by (simp only: set_map)
  then show ?thesis unfolding m by auto
qed

text \<open>
  After \<open>sanitizeInput\<close> has run its replacements, every pattern is at \<open>lastIndex\<close> 0,
  and the text it returns does not depend on where the patterns were.
\<close>

lemma sanitizeInput_text: "fst (sanitizeInput input st) = fst (sanitizeInput input st')"
proof (cases "is_string input \<and> to_boolean input")
  case True
  then obtain s where "input = JString s" "s \<noteq> []" by (cases input) auto
  then show ?thesis
    using remove_each_text [of "enumerate 0 DANGEROUS_PATTERNS" "trim s" st st']
    by (simp add: sanitizeInput_string removeDangerousPatterns_def)
next
  case False
  then show ?thesis by (simp add: sanitizeInput_not_string)
qed

lemma sanitizeInput_state:
  "s \<noteq> [] \<Longrightarrow> k < 11 \<Longrightarrow> snd (sanitizeInput (JString s) st) k = 0"
  using remove_each_state [of "enumerate 0 DANGEROUS_PATTERNS" "trim s" st k] pattern_keys
  by (auto simp add: sanitizeInput_def removeDangerousPatterns_def Let_def split: prod.splits)

lemma isInputSafe_agree:
  "\<forall>k < 11. st k = st' k \<Longrightarrow> fst (isInputSafe v st) = fst (isInputSafe v st')"
proof -
  assume "\<forall>k < 11. st k = st' k"
  then have "\<forall>k \<in> fst ` set (enumerate 0 DANGEROUS_PATTERNS). st k = st' k"
    by (simp add: pattern_keys)
  then have e: "fst (test_each (enumerate 0 DANGEROUS_PATTERNS) s st) =
      fst (test_each (enumerate 0 DANGEROUS_PATTERNS) s st')" for s
    by (rule test_each_agree)
  show ?thesis
  proof (cases v)
    case (JString s)
    obtain f1 s1 where 1: "test_each (enumerate 0 DANGEROUS_PATTERNS) s st = (f1, s1)"
      by fastforce
    obtain f2 s2 where 2: "test_each (enumerate 0 DANGEROUS_PATTERNS) s st' = (f2, s2)"
      by fastforce
    from e [of s] 1 2 have "f1 = f2" by simp
    with JString 1 2 show ?thesis by (simp add: isInputSafe_def)
  qed (simp_all add: isInputSafe_def)
qed

lemma isInputSafe_after_sanitizeInput:
  "fst (isInputSafe (JString (fst (sanitizeInput input st))) (snd (sanitizeInput input st))) =
   fst (isInputSafe (JString (fst (sanitizeInput input st))) initial_state)"
proof (cases "is_string input \<and> to_boolean input")
  case True
  then obtain s where s: "input = JString s" "s \<noteq> []" by (cases input) auto
  then have "\<forall>k < 11. snd (sanitizeInput input st) k = initial_state k"
    by (simp add: sanitizeInput_state initial_state_def)
  then show ?thesis by (rule isInputSafe_agree)
next
  case False
  then show ?thesis by (simp add: sanitizeInput_not_string isInputSafe_def)
qed

lemma isInputSafe_fresh_patterns:
  assumes "fst (isInputSafe (JString s) initial_state)" and "p \<in> set DANGEROUS_PATTERNS"
    and "s \<noteq> []"
  shows "exec_from True p s 0 = None"
proof -
  let ?ps = "enumerate 0 DANGEROUS_PATTERNS"
  from assms(1,3) have nf: "\<not> fst (test_each ?ps s initial_state)"
    by (auto simp add: isInputSafe_def split: prod.splits if_splits)
  from assms(2) obtain k where "k < length DANGEROUS_PATTERNS" "DANGEROUS_PATTERNS ! k = p"
    by (auto simp add: in_set_conv_nth)
  then have k: "(k, p) \<in> set ?ps" by (simp add: in_set_enumerate_eq)
  have "distinct (map fst ?ps)" by (simp add: map_fst_enumerate)
  from test_each_not_found [OF nf this k] show ?thesis
    by (simp add: regexp_test_fresh initial_state_def)
qed

text \<open>A literal that a text contains is matched by its pattern somewhere in the text.\<close>

lemma starts_with_ci_iff:
  "starts_with_ci cs hay \<longleftrightarrow>
     length cs \<le> length hay \<and>
     map (canonicalize True) (take (length cs) hay) = map (canonicalize True) cs"
  by (induction cs hay rule: starts_with_ci.induct) auto

lemma contains_ci_starts:
  "contains_ci cs s \<Longrightarrow> \<exists>i \<le> length s. starts_with_ci cs (drop i s)"
proof (induction s)
  case Nil
  then show ?case by simp
next
  case (Cons h hs)
  show ?case
  proof (cases "starts_with_ci cs (h # hs)")
    case True
    then have "0 \<le> length (h # hs) \<and> starts_with_ci cs (drop 0 (h # hs))" by simp
    then show ?thesis by blast
  next
    case False
    with Cons.prems have "contains_ci cs hs" by simp
    with Cons.IH obtain i where "i \<le> length hs" "starts_with_ci cs (drop i hs)" by blast
    then have "Suc i \<le> length (h # hs) \<and> starts_with_ci cs (drop (Suc i) (h # hs))" by simp
    then show ?thesis by blast
  qed
qed

lemma contains_ci_match:
  "contains_ci cs s \<Longrightarrow> \<exists>i \<le> length s. rmatch True (seqs (map RChar cs)) s i \<noteq> []"
proof -
  assume "contains_ci cs s"
  then obtain i where i: "i \<le> length s" "starts_with_ci cs (drop i s)"
    using contains_ci_starts by blast
  then have "rmatch True (seqs (map RChar cs)) s i \<noteq> []"
    by (auto simp add: rmatch_literal starts_with_ci_iff)
  with i(1) show ?thesis by blast
qed

lemma contains_ci_lt: "0x3C \<notin> set s \<Longrightarrow> \<not> contains_ci (0x3C # cs) s"
proof (induction s)
  case Nil
  then show ?case by simp
next
  case (Cons h hs)
  then have "canonicalize True h \<noteq> 0x3C" by simp
  with Cons show ?case by (simp add: eq_commute [of "0x3C"])
qed

lemma accepted_no_literal:
  assumes "fst (isInputSafe (JString out) initial_state)"
    and "seqs (lit cs) \<in> set DANGEROUS_PATTERNS"
  shows "\<not> contains_ci (str cs) out"
proof
  assume c: "contains_ci (str cs) out"
  show False
  proof (cases "out = []")
    case True
    with c have "seqs (lit cs) = REmpty" by (simp add: str_def lit_def seqs_Nil)
    with patterns_head [OF assms(2)] show False by simp
  next
    case False
    with assms have "exec_from True (seqs (lit cs)) out 0 = None"
      by (simp add: isInputSafe_fresh_patterns)
    then have "\<forall>i \<le> length out. rmatch True (seqs (map RChar (str cs))) out i = []"
      by (simp add: exec_from_None lit_def)
    with contains_ci_match [OF c] show False by blast
  qed
qed

lemma sanitizeNoteInput_unfold:
  "fst (sanitizeNoteInput input st) =
     (if fst (isInputSafe (JString (fst (sanitizeInput input st))) (snd (sanitizeInput input st)))
      then Inr (fst (sanitizeInput input st))
      else Inl (Error (str ''Invalid input: Contains potentially dangerous content'')))"
  by (simp add: sanitizeNoteInput_def split: prod.splits)


text \<open>
  What does hold of the dangerous literals: the result of \<open>sanitizeInput\<close> has no
  \<^verbatim>\<open><\<close>, so neither \<^verbatim>\<open><script\<close> nor \<^verbatim>\<open><iframe\<close>; and a result that
  \<open>sanitizeNoteInput\<close> returns has been tested by every pattern from \<^verbatim>\<open>lastIndex\<close> 0,
  so it has neither \<^verbatim>\<open>javascript:\<close> nor \<^verbatim>\<open>vbscript:\<close>.
\<close>

lemma sanitizeInput_output_literals:
  "\<not> contains_ci (str ''<script'') (fst (sanitizeInput input st)) \<and>
   \<not> contains_ci (str ''<iframe'') (fst (sanitizeInput input st)) \<and>
   (\<forall>out. fst (sanitizeNoteInput input st) = Inr out \<longrightarrow>
      out = fst (sanitizeInput input st) \<and>
      \<not> contains_ci (str ''javascript:'') out \<and> \<not> contains_ci (str ''vbscript:'') out)"
proof (intro conjI allI impI)
  have lt: "0x3C \<notin> set (fst (sanitizeInput input st))"
    using sanitizeInput_clean [of input st] by (auto simp add: raw_chars_def)
  from lt show "\<not> contains_ci (str ''<script'') (fst (sanitizeInput input st))"
    by (simp add: str_def contains_ci_lt)
  from lt show "\<not> contains_ci (str ''<iframe'') (fst (sanitizeInput input st))"
    by (simp add: str_def contains_ci_lt)
  fix out assume a: "fst (sanitizeNoteInput input st) = Inr out"
  then have o: "out = fst (sanitizeInput input st)"
    and "fst (isInputSafe (JString (fst (sanitizeInput input st))) (snd (sanitizeInput input st)))"
    by (auto simp add: sanitizeNoteInput_unfold split: if_splits)
  then have s: "fst (isInputSafe (JString out) initial_state)"
    by (simp add: isInputSafe_after_sanitizeInput)
  from o show "out = fst (sanitizeInput input st)" .
  from s show "\<not> contains_ci (str ''javascript:'') out"
    by (rule accepted_no_literal) (simp add: DANGEROUS_PATTERNS_def)
  from s show "\<not> contains_ci (str ''vbscript:'') out"
    by (rule accepted_no_literal) (simp add: DANGEROUS_PATTERNS_def)
qed


section \<open>The claims\<close>

text \<open>
  C1. The result of \<^verbatim>\<open>sanitizeInput\<close> is to contain none of \<^verbatim>\<open><script\<close>,
  \<^verbatim>\<open><iframe\<close>, \<^verbatim>\<open>javascript:\<close> and \<^verbatim>\<open>vbscript:\<close>, in any letter case. The code
  removes the matches of each pattern in a single pass and does not look at the text again,
  so a match that is removed can leave the literal behind, put together from the text on
  either side: \<^verbatim>\<open>sanitizeInput("javajavascript:script:")\<close> is \<^verbatim>\<open>"javascript:"\<close>,
  \<^verbatim>\<open>sanitizeInput("vbvbscript:script:")\<close> contains \<^verbatim>\<open>vbscript:\<close>, and the removal of
  \<^verbatim>\<open>onx=\<close> from \<^verbatim>\<open>"javaonx=script:alert(1)"\<close> leaves \<^verbatim>\<open>"javascript:alert(1)"\<close>.
  Here the code does not do what the claim, and its own comments on the patterns, say.
\<close>

theorem sanitizeInput_reassembles_scheme:
  "fst (sanitizeInput (JString (str ''javajavascript:script:'')) initial_state) = str ''javascript:'' \<and>
   contains_ci (str ''javascript:'')
     (fst (sanitizeInput (JString (str ''javajavascript:script:'')) initial_state)) \<and>
   contains_ci (str ''vbscript:'')
     (fst (sanitizeInput (JString (str ''vbvbscript:script:'')) initial_state)) \<and>
   fst (sanitizeInput (JString (str ''javaonx=script:alert(1)'')) initial_state) =
     str ''javascript:alert(1)''"
  by code_simp

text \<open>
  C2. \<^verbatim>\<open>sanitizeNoteInput\<close> computes \<^verbatim>\<open>sanitizeInput\<close> and applies \<^verbatim>\<open>isInputSafe\<close>
  to its result; it throws the error with the message
  \<^verbatim>\<open>Invalid input: Contains potentially dangerous content\<close> exactly when that judgement
  is unsafe, and returns the sanitized text otherwise. The judgement is the one
  \<^verbatim>\<open>isInputSafe\<close> gives on a newly loaded module: \<^verbatim>\<open>sanitizeInput\<close> has left every
  pattern at \<^verbatim>\<open>lastIndex\<close> 0 (or has returned the empty string).
\<close>

theorem sanitizeNoteInput_contract:
  "fst (sanitizeNoteInput input st) =
     (if fst (isInputSafe (JString (fst (sanitizeInput input st))) (snd (sanitizeInput input st)))
      then Inr (fst (sanitizeInput input st))
      else Inl (Error (str ''Invalid input: Contains potentially dangerous content''))) \<and>
   fst (isInputSafe (JString (fst (sanitizeInput input st))) (snd (sanitizeInput input st))) =
     fst (isInputSafe (JString (fst (sanitizeInput input st))) initial_state)"
  using sanitizeNoteInput_unfold [of input st] isInputSafe_after_sanitizeInput [of input st]
  by simp


text \<open>
  C4. \<^verbatim>\<open>sanitizeInput("<b>Hello</b>")\<close> is exactly
  \<^verbatim>\<open>"&lt;b&gt;Hello&lt;&#x2F;b&gt;"\<close>: no pattern removes the tags, the escaping
  replaces \<^verbatim>\<open><\<close>, \<^verbatim>\<open>>\<close> and \<^verbatim>\<open>/\<close>, and the tag strip finds nothing. This holds
  whatever the \<^verbatim>\<open>lastIndex\<close> of the patterns was.
\<close>

theorem sanitizeInput_bold_hello:
  "fst (sanitizeInput (JString (str ''<b>Hello</b>'')) st) = str ''&lt;b&gt;Hello&lt;&#x2F;b&gt;''"
  by code_simp

text \<open>
  C7. \<^verbatim>\<open>sanitizeInput\<close> is a total function to strings (no path of it throws), and
  its result is the empty string when the input is null, undefined, not a string, or the
  empty string; the patterns are left as they were.
\<close>

theorem sanitizeInput_empty_equivalent:
  "(input = JNull \<or> input = JUndefined \<or> \<not> is_string input \<or> input = JString []) \<longrightarrow>
     sanitizeInput input st = ([], st)"
  by (cases input) (auto simp add: sanitizeInput_def)

theorem sanitizeInput_empty_equivalent_witness:
  "sanitizeInput JNull initial_state = ([], initial_state) \<and>
   sanitizeInput JUndefined initial_state = ([], initial_state) \<and>
   \<not> is_string (JOther True) \<and> sanitizeInput (JOther True) initial_state = ([], initial_state) \<and>
   sanitizeInput (JString []) initial_state = ([], initial_state)"
  using sanitizeInput_empty_equivalent [of JNull initial_state]
    sanitizeInput_empty_equivalent [of JUndefined initial_state]
    sanitizeInput_empty_equivalent [of "JOther True" initial_state]
    sanitizeInput_empty_equivalent [of "JString []" initial_state]
  by simp

text \<open>
  C8. \<^verbatim>\<open>isInputSafe\<close> is true for the empty string and for null, and false for
  \<^verbatim>\<open>"<script>alert(1)</script>"\<close>, whatever the \<^verbatim>\<open>lastIndex\<close> of the patterns: when
  the loop over the patterns finds nothing, the tag test, whose expression is new, does.
\<close>

theorem isInputSafe_examples:
  "fst (isInputSafe (JString []) st) = True \<and> fst (isInputSafe JNull st) = True \<and>
   fst (isInputSafe (JString (str ''<script>alert(1)</script>'')) st) = False"
proof -
  have "fst (regexp_test False any_tag (str ''<script>alert(1)</script>'') 0)" by code_simp
  then show ?thesis by (simp add: isInputSafe_tag) (simp add: isInputSafe_def)
qed

text \<open>
  C9. The result of \<^verbatim>\<open>sanitizeInput\<close> contains none of the characters
  \<^verbatim>\<open>< > " ' ` = /\<close>, for every input and every state of the patterns.
\<close>

theorem sanitizeInput_no_raw_character:
  "set (fst (sanitizeInput input st)) \<inter> set [0x3C, 0x3E, 0x22, 0x27, 0x60, 0x3D, 0x2F] = {}"
  using sanitizeInput_clean [of input st] by (simp add: raw_chars_def)

text \<open>
  C10. The failure of \<^verbatim>\<open>sanitizeNoteInput\<close> is reachable: on \<^verbatim>\<open>"dadata:ta:"\<close> the
  single pass of \<^verbatim>\<open>/data:/gi\<close> leaves \<^verbatim>\<open>"data:"\<close>, which \<^verbatim>\<open>isInputSafe\<close> rejects, and
  \<^verbatim>\<open>sanitizeNoteInput\<close> throws.
\<close>

theorem sanitizeNoteInput_throws:
  "fst (sanitizeInput (JString (str ''dadata:ta:'')) st) = str ''data:'' \<and>
   fst (isInputSafe (JString (str ''data:'')) (snd (sanitizeInput (JString (str ''dadata:ta:'')) st))) = False \<and>
   fst (sanitizeNoteInput (JString (str ''dadata:ta:'')) st) =
     Inl (Error (str ''Invalid input: Contains potentially dangerous content''))"
  by code_simp

text \<open>
  C3. \<^verbatim>\<open>isInputSafe\<close> is not a function of its input alone. \<^verbatim>\<open>test\<close> on a pattern
  with the \<^verbatim>\<open>g\<close> flag leaves the end of its match in \<^verbatim>\<open>lastIndex\<close>, and the next call
  searches from there: from the state of a newly loaded module, \<^verbatim>\<open>isInputSafe("vbscript:")\<close>
  is false, and the same call again is true.
\<close>

theorem isInputSafe_twice:
  "fst (isInputSafe (JString (str ''vbscript:'')) initial_state) = False \<and>
   fst (isInputSafe (JString (str ''vbscript:''))
          (snd (isInputSafe (JString (str ''vbscript:'')) initial_state))) = True"
  by code_simp

text \<open>
  C5. For a string \<open>s\<close> of at most 5000 code units that has none of the eight special
  characters and that no dangerous pattern matches, \<^verbatim>\<open>sanitizeInput(s.trim())\<close> is
  \<^verbatim>\<open>s.trim()\<close>, whatever the \<^verbatim>\<open>lastIndex\<close> of the patterns.
\<close>

theorem sanitizeInput_identity:
  assumes "length s \<le> 5000"
    and "set s \<inter> set (str ''&<>'' @ [0x22, 0x27] @ str ''`=/'') = {}"
    and "\<forall>p \<in> set DANGEROUS_PATTERNS. \<not> fst (regexp_test True p s 0)"
  shows "fst (sanitizeInput (JString (trim s)) st) = trim s"
proof -
  from assms(2) have sp: "set s \<inter> set special_list = {}" by (simp add: special_list_def)
  from assms(3) have "\<forall>p \<in> set DANGEROUS_PATTERNS. exec_from True p s 0 = None"
    by (simp only: regexp_test_fresh)
  with sp have "\<forall>p \<in> set DANGEROUS_PATTERNS. exec_from True p (trim s) 0 = None"
    by (rule safe_text_trimmed)
  moreover from sp set_trim [of s] have "set (trim s) \<inter> set special_list = {}" by blast
  ultimately have "fst (sanitizeInput (JString (trim s)) st) =
      (if 5000 < length (trim (trim s)) then take 5000 (trim (trim s)) else trim (trim s))"
    by (intro sanitizeInput_safe_text) (simp_all add: trim_trim)
  with assms(1) length_trim [of s] show ?thesis by (simp add: trim_trim)
qed

theorem sanitizeInput_identity_witness:
  "fst (sanitizeInput (JString (str ''Hello, world: 100%'')) initial_state) = str ''Hello, world: 100%''"
proof -
  let ?s = "str ''  Hello, world: 100%  ''"
  have t: "trim ?s = str ''Hello, world: 100%''" by code_simp
  have 1: "length ?s \<le> 5000" by code_simp
  have 2: "set ?s \<inter> set (str ''&<>'' @ [0x22, 0x27] @ str ''`=/'') = {}" by code_simp
  have 3: "\<forall>p \<in> set DANGEROUS_PATTERNS. \<not> fst (regexp_test True p ?s 0)" by code_simp
  from sanitizeInput_identity [OF 1 2 3, of initial_state] show ?thesis unfolding t .
qed

text \<open>
  C6. The result of \<^verbatim>\<open>sanitizeInput\<close> has at most 5000 code units; when the text after
  the tag strip has more, the result is its first 5000 code units; and 6000 times
  \<^verbatim>\<open>a\<close> gives 5000 times \<^verbatim>\<open>a\<close>.
\<close>

theorem sanitizeInput_clamp:
  "length (fst (sanitizeInput input st)) \<le> 5000 \<and>
   (let sanitized = fst (string_replace False any_tag (\<lambda>m. [])
                          (escapeHtml (fst (removeDangerousPatterns (trim s) st))))
    in 5000 < length sanitized \<longrightarrow> fst (sanitizeInput (JString s) st) = take 5000 sanitized) \<and>
   fst (sanitizeInput (JString (replicate 6000 0x61)) st) = replicate 5000 0x61"
proof (intro conjI)
  show "length (fst (sanitizeInput input st)) \<le> 5000"
    by (cases input) (auto simp add: sanitizeInput_def Let_def split: prod.splits)
  show "let sanitized = fst (string_replace False any_tag (\<lambda>m. [])
                          (escapeHtml (fst (removeDangerousPatterns (trim s) st))))
    in 5000 < length sanitized \<longrightarrow> fst (sanitizeInput (JString s) st) = take 5000 sanitized"
  proof (cases "s = []")
    case True
    then show ?thesis by (simp add: sanitize_steps_Nil)
  next
    case False
    then show ?thesis by (simp add: sanitizeInput_unfold Let_def)
  qed
  have "fst (sanitizeInput (JString (replicate 6000 0x61)) st) =
      take 5000 (replicate 6000 (0x61 :: cu))"
    by (simp add: sanitizeInput_unfold sanitize_steps_letters)
  then show "fst (sanitizeInput (JString (replicate 6000 0x61)) st) = replicate 5000 0x61"
    by simp
qed

theorem sanitizeInput_clamp_witness:
  "5000 < length (fst (string_replace False any_tag (\<lambda>m. [])
       (escapeHtml (fst (removeDangerousPatterns (trim (replicate 6000 0x61)) initial_state))))) \<and>
   fst (sanitizeInput (JString (replicate 6000 0x61)) initial_state) =
     take 5000 (fst (string_replace False any_tag (\<lambda>m. [])
       (escapeHtml (fst (removeDangerousPatterns (trim (replicate 6000 0x61)) initial_state))))) \<and>
   length (fst (sanitizeInput (JString (replicate 6000 0x61)) initial_state)) = 5000"
  using sanitizeInput_clamp [of "JString (replicate 6000 0x61)" initial_state "replicate 6000 0x61"]
    sanitize_steps_letters [of "\<lambda>m. []" 6000 initial_state]
  by (simp add: Let_def)

end
